theory Spec2Isabelle
  imports Complex_Main "HOL-Library.Monad_Syntax"
begin

section \<open>Scalars, indices and containers\<close>

text \<open>
  The scalar type \<open>T\<close> of \<open>SimpsonRule<T, NN>\<close> is modelled by the field \<^typ>\<open>real\<close>:
  every result below is about exact field arithmetic, not about rounding.

  The running total, \<open>sum\<close> in the source, is called \<open>acc\<close> here.

  A value of type \<^typ>\<open>real option\<close> is the outcome of a computation: \<open>None\<close> stands for
  a call without a defined value (an index outside the container, a division by zero,
  or a loop that does not finish).

  Indices have the type of \<open>x.size()\<close>, which for the standard containers is the
  unsigned 64 bit \<open>std::size_t\<close>: they are naturals below \<open>2 ^ 64\<close>, and addition and
  subtraction wrap around.
\<close>

definition SIZE_MOD :: nat where
  "SIZE_MOD = 2 ^ 64"

definition sz_add :: "nat \<Rightarrow> nat \<Rightarrow> nat" where
  "sz_add a b = (a + b) mod SIZE_MOD"

definition sz_sub :: "nat \<Rightarrow> nat \<Rightarrow> nat" where
  "sz_sub a b = (a + (SIZE_MOD - b mod SIZE_MOD)) mod SIZE_MOD"

text \<open>
  The templates take any container with \<open>size()\<close> and \<open>operator[]\<close>. A container is
  these two capabilities; \<open>get c i = None\<close> is an access without a defined value.
\<close>

record 'a container =
  csize :: nat
  get :: "nat \<Rightarrow> 'a option"

text \<open>A \<open>std::vector\<close> with the elements of a list: reading at or past the size is undefined.\<close>

definition vector_of :: "'a list \<Rightarrow> 'a container" where
  "vector_of xs = \<lparr>csize = length xs, get = (\<lambda>i. if i < length xs then Some (xs ! i) else None)\<rparr>"

section \<open>The Lagrange basis term\<close>

text \<open>\<open>SimpsonRule::LagrangePolynomial\<close>: \<open>(x - A) * (x - B) / (C - A) / (C - B)\<close>.\<close>

definition LagrangePolynomial :: "real \<Rightarrow> real \<Rightarrow> real \<Rightarrow> real \<Rightarrow> real option" where
  "LagrangePolynomial x A B C =
     (if C - A = 0 \<or> C - B = 0 then None
      else Some ((x - A) * (x - B) / (C - A) / (C - B)))"

section \<open>Discretized function, abscissas and ordinates in two containers\<close>

text \<open>
  The interpolated ordinate \<open>ym\<close> at \<open>m\<close> from the three samples at \<open>i\<close>, \<open>i+1\<close>, \<open>i+2\<close>;
  the loop body and the tail compute it with the same expression.
\<close>

definition interp_xy :: "real container \<Rightarrow> real container \<Rightarrow> nat \<Rightarrow> real \<Rightarrow> real option" where
  "interp_xy x y i m = do {
     x0 \<leftarrow> get x i;
     x1 \<leftarrow> get x (sz_add i 1);
     x2 \<leftarrow> get x (sz_add i 2);
     y0 \<leftarrow> get y i;
     y1 \<leftarrow> get y (sz_add i 1);
     y2 \<leftarrow> get y (sz_add i 2);
     l0 \<leftarrow> LagrangePolynomial m x1 x2 x0;
     l1 \<leftarrow> LagrangePolynomial m x0 x2 x1;
     l2 \<leftarrow> LagrangePolynomial m x0 x1 x2;
     Some (y0 * l0 + y1 * l1 + y2 * l2)
   }"

text \<open>The body of the loop over triples: the amount added to \<open>sum\<close> at index \<open>i\<close>.\<close>

definition triple_xy :: "real container \<Rightarrow> real container \<Rightarrow> nat \<Rightarrow> real option" where
  "triple_xy x y i = do {
     x0 \<leftarrow> get x i;
     x2 \<leftarrow> get x (sz_add i 2);
     ym \<leftarrow> interp_xy x y i ((x0 + x2) / 2);
     y0 \<leftarrow> get y i;
     y2 \<leftarrow> get y (sz_add i 2);
     Some ((x2 - x0) / 6 * (y0 + 4 * ym + y2))
   }"

text \<open>\<open>for (i = 0; i < x.size() - 2; i += 2)\<close>, from the index \<open>i\<close> and the running sum.\<close>

partial_function (option) loop_xy ::
  "real container \<Rightarrow> real container \<Rightarrow> nat \<Rightarrow> real \<Rightarrow> real option" where
  "loop_xy x y i acc =
     (if i < sz_sub (csize x) 2
      then do { t \<leftarrow> triple_xy x y i; loop_xy x y (sz_add i 2) (acc + t) }
      else Some acc)"

text \<open>The extra interval at the end, from \<open>i = x.size() - 3\<close>.\<close>

definition tail_xy :: "real container \<Rightarrow> real container \<Rightarrow> real option" where
  "tail_xy x y = (let i = sz_sub (csize x) 3 in do {
     x1 \<leftarrow> get x (sz_add i 1);
     x2 \<leftarrow> get x (sz_add i 2);
     ym \<leftarrow> interp_xy x y i ((x1 + x2) / 2);
     y1 \<leftarrow> get y (sz_add i 1);
     y2 \<leftarrow> get y (sz_add i 2);
     Some ((x2 - x1) / 6 * (y1 + 4 * ym + y2))
   })"

text \<open>\<open>operator()(const X &x, const Y &y)\<close>.\<close>

definition SimpsonRule_xy :: "real container \<Rightarrow> real container \<Rightarrow> real option" where
  "SimpsonRule_xy x y = do {
     acc \<leftarrow> loop_xy x y 0 0;
     if csize x mod 2 = 0
     then (if csize x > 2
           then do { t \<leftarrow> tail_xy x y; Some (acc + t) }
           else Some acc)
     else Some acc
   }"

section \<open>Uniformly discretized function\<close>

text \<open>\<open>for (i = 0; i < y.size() - 2; i += 2) sum += y[i] + 4*y[i+1] + y[i+2];\<close>\<close>

partial_function (option) loop_y :: "real container \<Rightarrow> nat \<Rightarrow> real \<Rightarrow> real option" where
  "loop_y y i acc =
     (if i < sz_sub (csize y) 2
      then do {
        y0 \<leftarrow> get y i;
        y1 \<leftarrow> get y (sz_add i 1);
        y2 \<leftarrow> get y (sz_add i 2);
        loop_y y (sz_add i 2) (acc + (y0 + 4 * y1 + y2))
      }
      else Some acc)"

text \<open>The tail of the uniform version, from \<open>i = y.size() - 3\<close>; it has no guard on the size.\<close>

definition tail_y :: "real container \<Rightarrow> real \<Rightarrow> real option" where
  "tail_y y dx = (let i = sz_sub (csize y) 3 in do {
     y0 \<leftarrow> get y i;
     y1 \<leftarrow> get y (sz_add i 1);
     y2 \<leftarrow> get y (sz_add i 2);
     l0 \<leftarrow> LagrangePolynomial (3 * dx / 2) dx (2 * dx) 0;
     l1 \<leftarrow> LagrangePolynomial (3 * dx / 2) 0 (2 * dx) dx;
     l2 \<leftarrow> LagrangePolynomial (3 * dx / 2) 0 dx (2 * dx);
     let ym = y0 * l0 + y1 * l1 + y2 * l2 in
     Some (dx / 6 * (y1 + 4 * ym + y2))
   })"

text \<open>\<open>operator()(const Y &y, T dx = 1)\<close>.\<close>

definition SimpsonRule_y :: "real container \<Rightarrow> real \<Rightarrow> real option" where
  "SimpsonRule_y y dx = do {
     acc \<leftarrow> loop_y y 0 0;
     let acc = acc * (dx / 3) in
     if csize y mod 2 = 0
     then do { t \<leftarrow> tail_y y dx; Some (acc + t) }
     else Some acc
   }"

section \<open>Callable between two points\<close>

text \<open>
  \<open>for (std::size_t i = 0; i < N; i++, x += dx) sum += f(x) + 4 * f(x + dx / 2) + f(x + dx);\<close>
  from the counter \<open>i\<close>, the abscissa \<open>x\<close> and the running sum. The callable is a function
  on the scalars.
\<close>

function loop_f :: "(real \<Rightarrow> real) \<Rightarrow> real \<Rightarrow> nat \<Rightarrow> nat \<Rightarrow> real \<Rightarrow> real \<Rightarrow> real" where
  "loop_f f dx N i x acc =
     (if i < N
      then loop_f f dx N (i + 1) (x + dx) (acc + (f x + 4 * f (x + dx / 2) + f (x + dx)))
      else acc)"
  by pat_completeness auto
termination
  by (relation "measure (\<lambda>(f, dx, N, i, x, acc). N - i)") auto

text \<open>
  \<open>operator()(F f, T a, T b, std::size_t N)\<close>. The interval size is \<open>(b - a) / N\<close>, which
  has no value for \<open>N = 0\<close>.
\<close>

definition SimpsonRule_f :: "(real \<Rightarrow> real) \<Rightarrow> real \<Rightarrow> real \<Rightarrow> nat \<Rightarrow> real option" where
  "SimpsonRule_f f a b N =
     (if N = 0 then None
      else let dx = (b - a) / real N in Some (loop_f f dx N 0 a 0 * (dx / 6)))"

text \<open>
  \<open>operator()(F f, T a, T b)\<close> of \<open>SimpsonRule<T, NN>\<close>, with its own loop over the template
  parameter \<open>NN\<close>. The overload exists for \<open>NN > 0\<close> only.
\<close>

function loop_f_NN :: "nat \<Rightarrow> (real \<Rightarrow> real) \<Rightarrow> real \<Rightarrow> nat \<Rightarrow> real \<Rightarrow> real \<Rightarrow> real" where
  "loop_f_NN NN f dx i x acc =
     (if i < NN
      then loop_f_NN NN f dx (i + 1) (x + dx) (acc + (f x + 4 * f (x + dx / 2) + f (x + dx)))
      else acc)"
  by pat_completeness auto
termination
  by (relation "measure (\<lambda>(NN, f, dx, i, x, acc). NN - i)") auto

definition SimpsonRule_f_NN :: "nat \<Rightarrow> (real \<Rightarrow> real) \<Rightarrow> real \<Rightarrow> real \<Rightarrow> real option" where
  "SimpsonRule_f_NN NN f a b =
     (if NN = 0 then None
      else let dx = (b - a) / real NN in Some (loop_f_NN NN f dx 0 a 0 * (dx / 6)))"


declare loop_f.simps [simp del] loop_f_NN.simps [simp del]

section \<open>The specification's formulas\<close>

text \<open>
  The definitions of this section follow the words of the specification, on lists, with
  total arithmetic. The theorems below compare them with the program above.

  A sequence of abscissas is strictly monotonic when it is strictly increasing or strictly
  decreasing.
\<close>

definition strictly_monotonic :: "real list \<Rightarrow> bool" where
  "strictly_monotonic xs \<longleftrightarrow> sorted_wrt (<) xs \<or> sorted_wrt (>) xs"

text \<open>
  The quadratic through three points in Lagrange form: for each point, its ordinate times
  the product of \<open>t\<close> minus the other two abscissas, divided by the product of this
  abscissa minus the other two.
\<close>

definition lagrange3 :: "real \<Rightarrow> real \<Rightarrow> real \<Rightarrow> real \<Rightarrow> real \<Rightarrow> real \<Rightarrow> real \<Rightarrow> real" where
  "lagrange3 x0 y0 x1 y1 x2 y2 t =
     y0 * ((t - x1) * (t - x2) / ((x0 - x1) * (x0 - x2)))
   + y1 * ((t - x0) * (t - x2) / ((x1 - x0) * (x1 - x2)))
   + y2 * ((t - x0) * (t - x1) / ((x2 - x0) * (x2 - x1)))"

text \<open>
  The interpolant through the samples at \<open>i\<close>, \<open>i + 1\<close>, \<open>i + 2\<close>.
\<close>

definition quadratic_at :: "real list \<Rightarrow> real list \<Rightarrow> nat \<Rightarrow> real \<Rightarrow> real" where
  "quadratic_at x y i t =
     lagrange3 (x ! i) (y ! i) (x ! (i + 1)) (y ! (i + 1)) (x ! (i + 2)) (y ! (i + 2)) t"

text \<open>
  The first index of every full triple of \<open>n\<close> samples: \<open>i = 0, 2, 4, \<dots>\<close> while
  \<open>i < n - 2\<close>.
\<close>

definition triple_starts :: "nat \<Rightarrow> nat list" where
  "triple_starts n = filter even [0..<n - 2]"

text \<open>
  Non-uniform spacing: the contribution of the triple at \<open>i\<close>, the contribution of the last
  pair of points, and their total.
\<close>

definition spec_xy_triple :: "real list \<Rightarrow> real list \<Rightarrow> nat \<Rightarrow> real" where
  "spec_xy_triple x y i =
     (x ! (i + 2) - x ! i) / 6
       * (y ! i + 4 * quadratic_at x y i ((x ! i + x ! (i + 2)) / 2) + y ! (i + 2))"

definition spec_xy_tail :: "real list \<Rightarrow> real list \<Rightarrow> real" where
  "spec_xy_tail x y = (let n = length x in
     (x ! (n - 1) - x ! (n - 2)) / 6
       * (y ! (n - 2) + 4 * quadratic_at x y (n - 3) ((x ! (n - 2) + x ! (n - 1)) / 2) + y ! (n - 1)))"

definition spec_xy_formula :: "real list \<Rightarrow> real list \<Rightarrow> real" where
  "spec_xy_formula x y =
     (\<Sum>i\<leftarrow>triple_starts (length x). spec_xy_triple x y i)
     + (if even (length x) \<and> length x > 2 then spec_xy_tail x y else 0)"

text \<open>
  Uniform spacing: the sum over the triples scaled by \<open>dx / 3\<close>, and for an even number of
  samples the separate term of the last pair, interpolated at \<open>3 dx / 2\<close> among the offsets
  \<open>0\<close>, \<open>dx\<close>, \<open>2 dx\<close>.
\<close>

definition spec_y_formula :: "real list \<Rightarrow> real \<Rightarrow> real" where
  "spec_y_formula y dx = (let n = length y in
     dx / 3 * (\<Sum>i\<leftarrow>triple_starts n. y ! i + 4 * y ! (i + 1) + y ! (i + 2))
     + (if even n
        then dx / 6 * (y ! (n - 2)
               + 4 * lagrange3 0 (y ! (n - 3)) dx (y ! (n - 2)) (2 * dx) (y ! (n - 1)) (3 * dx / 2)
               + y ! (n - 1))
        else 0))"

text \<open>
  Continuous domain: the sum of the three weighted evaluations over the \<open>N\<close> intervals of
  width \<open>dx\<close> from \<open>a\<close>.
\<close>

definition simpson_sum :: "(real \<Rightarrow> real) \<Rightarrow> real \<Rightarrow> real \<Rightarrow> nat \<Rightarrow> real" where
  "simpson_sum f a dx N = (\<Sum>i<N. f (a + real i * dx) + 4 * f (a + real i * dx + dx / 2) + f (a + real i * dx + dx))"

text \<open>
  The polynomials of degree at most 3, and a primitive of each; by the fundamental
  theorem of calculus the integral over \<open>[a, b]\<close> is the difference of the primitive
  at \<open>b\<close> and at \<open>a\<close>.
\<close>

definition cubic :: "real \<Rightarrow> real \<Rightarrow> real \<Rightarrow> real \<Rightarrow> real \<Rightarrow> real" where
  "cubic c0 c1 c2 c3 x = c0 + c1 * x + c2 * x ^ 2 + c3 * x ^ 3"

definition cubic_primitive :: "real \<Rightarrow> real \<Rightarrow> real \<Rightarrow> real \<Rightarrow> real \<Rightarrow> real" where
  "cubic_primitive c0 c1 c2 c3 x = c0 * x + c1 * x ^ 2 / 2 + c2 * x ^ 3 / 3 + c3 * x ^ 4 / 4"

section \<open>Index arithmetic and vectors\<close>

lemmas sz_defs = SIZE_MOD_def sz_add_def sz_sub_def

lemma csize_vector_of [simp]: "csize (vector_of xs) = length xs"
  by (simp add: vector_of_def)

lemma get_vector_of: "get (vector_of xs) i = (if i < length xs then Some (xs ! i) else None)"
  by (simp add: vector_of_def)

lemma get_vector_of_in [simp]: "i < length xs \<Longrightarrow> get (vector_of xs) i = Some (xs ! i)"
  by (simp add: vector_of_def)

lemma sz_add_small: "a + b < SIZE_MOD \<Longrightarrow> sz_add a b = a + b"
  by (simp add: sz_add_def)

lemma sz_sub_small: "b \<le> a \<Longrightarrow> a < SIZE_MOD \<Longrightarrow> sz_sub a b = a - b"
proof -
  assume ba: "b \<le> a" and a: "a < SIZE_MOD"
  then have "a + (SIZE_MOD - b mod SIZE_MOD) = (a - b) + SIZE_MOD" by simp
  moreover have "a - b < SIZE_MOD" using a by simp
  ultimately show ?thesis unfolding sz_sub_def by (simp only: mod_add_self2 mod_less)
qed

lemma filter_even_upt_step:
  assumes "even i" "i < b"
  shows "filter even [i..<b] = i # filter even [i + 2..<b]"
proof (cases "Suc i < b")
  case True
  then show ?thesis using assms by (simp add: upt_conv_Cons)
next
  case False
  then show ?thesis using assms by (simp add: upt_conv_Cons)
qed

lemma strictly_monotonic_distinct:
  assumes "strictly_monotonic xs" "i < j" "j < length xs"
  shows "xs ! i \<noteq> xs ! j"
  using assms sorted_wrt_nth_less [of "(<)" xs i j] sorted_wrt_nth_less [of "(>)" xs i j]
  by (auto simp: strictly_monotonic_def)

section \<open>The Lagrange interpolant\<close>

lemma LagrangePolynomial_Some:
  "C \<noteq> A \<Longrightarrow> C \<noteq> B \<Longrightarrow> LagrangePolynomial x A B C = Some ((x - A) * (x - B) / ((C - A) * (C - B)))"
  by (simp add: LagrangePolynomial_def)

lemma lagrange3_is_quadratic:
  "\<exists>c0 c1 c2. \<forall>t. lagrange3 x0 y0 x1 y1 x2 y2 t = c0 + c1 * t + c2 * t ^ 2"
proof -
  define w0 where "w0 = y0 / ((x0 - x1) * (x0 - x2))"
  define w1 where "w1 = y1 / ((x1 - x0) * (x1 - x2))"
  define w2 where "w2 = y2 / ((x2 - x0) * (x2 - x1))"
  have "lagrange3 x0 y0 x1 y1 x2 y2 t
      = (w0 * x1 * x2 + w1 * x0 * x2 + w2 * x0 * x1)
        + - (w0 * (x1 + x2) + w1 * (x0 + x2) + w2 * (x0 + x1)) * t
        + (w0 + w1 + w2) * t ^ 2" for t
    unfolding lagrange3_def w0_def w1_def w2_def
    by (simp add: algebra_simps power2_eq_square add_divide_distrib diff_divide_distrib)
  then show ?thesis by blast
qed

lemma lagrange3_nodes:
  assumes "x0 \<noteq> x1" "x0 \<noteq> x2" "x1 \<noteq> x2"
  shows "lagrange3 x0 y0 x1 y1 x2 y2 x0 = y0"
    and "lagrange3 x0 y0 x1 y1 x2 y2 x1 = y1"
    and "lagrange3 x0 y0 x1 y1 x2 y2 x2 = y2"
  using assms by (simp_all add: lagrange3_def)

lemma lagrange3_unique:
  assumes "x0 \<noteq> x1" "x0 \<noteq> x2" "x1 \<noteq> x2"
  shows "lagrange3 x0 (c0 + c1 * x0 + c2 * x0 ^ 2) x1 (c0 + c1 * x1 + c2 * x1 ^ 2)
            x2 (c0 + c1 * x2 + c2 * x2 ^ 2) t = c0 + c1 * t + c2 * t ^ 2"
proof -
  have d: "x0 - x1 \<noteq> 0" "x0 - x2 \<noteq> 0" "x1 - x2 \<noteq> 0" "x1 - x0 \<noteq> 0" "x2 - x0 \<noteq> 0" "x2 - x1 \<noteq> 0"
    using assms by simp_all
  show ?thesis
    unfolding lagrange3_def using d
    by (simp add: divide_simps) (simp add: algebra_simps power2_eq_square)
qed

section \<open>Closed forms of the loops\<close>

lemma loop_f_closed:
  "loop_f f dx N i x acc =
     acc + (\<Sum>k<N - i. f (x + real k * dx) + 4 * f (x + real k * dx + dx / 2) + f (x + real k * dx + dx))"
proof (induction f dx N i x acc rule: loop_f.induct)
  case (1 f dx N i x acc)
  show ?case
  proof (cases "i < N")
    case True
    then have n: "N - i = Suc (N - (i + 1))" by simp
    let ?g = "\<lambda>x k. f (x + real k * dx) + 4 * f (x + real k * dx + dx / 2) + f (x + real k * dx + dx)"
    have shift: "?g x (Suc k) = ?g (x + dx) k" for k
      by (simp add: algebra_simps)
    have "(\<Sum>k<N - i. ?g x k) = ?g x 0 + (\<Sum>k<N - (i + 1). ?g x (Suc k))"
      by (simp only: n sum.lessThan_Suc_shift)
    also have "\<dots> = ?g x 0 + (\<Sum>k<N - (i + 1). ?g (x + dx) k)"
      by (simp only: shift)
    finally have split: "(\<Sum>k<N - i. ?g x k) = ?g x 0 + (\<Sum>k<N - (i + 1). ?g (x + dx) k)" .
    have "loop_f f dx N i x acc = loop_f f dx N (i + 1) (x + dx) (acc + (f x + 4 * f (x + dx / 2) + f (x + dx)))"
      using True by (subst loop_f.simps) simp
    also have "\<dots> = acc + (f x + 4 * f (x + dx / 2) + f (x + dx)) + (\<Sum>k<N - (i + 1). ?g (x + dx) k)"
      by (rule "1.IH" [OF True])
    also have "\<dots> = acc + (\<Sum>k<N - i. ?g x k)"
      unfolding split by simp
    finally show ?thesis .
  next
    case False
    then show ?thesis by (subst loop_f.simps) simp
  qed
qed

lemma loop_f_NN_eq: "loop_f_NN NN f dx i x acc = loop_f f dx NN i x acc"
proof (induction NN f dx i x acc rule: loop_f_NN.induct)
  case (1 NN f dx i x acc)
  show ?case
  proof (cases "i < NN")
    case True
    then show ?thesis
      using "1.IH" [OF True] by (subst loop_f_NN.simps, subst loop_f.simps) simp
  next
    case False
    then show ?thesis by (subst loop_f_NN.simps, subst loop_f.simps) simp
  qed
qed

lemma SimpsonRule_f_closed:
  "1 \<le> N \<Longrightarrow> SimpsonRule_f f a b N = Some ((b - a) / real N / 6 * simpson_sum f a ((b - a) / real N) N)"
  by (simp add: SimpsonRule_f_def loop_f_closed simpson_sum_def Let_def)

lemma interp_xy_vector:
  assumes "i + 2 < length xs" "length ys = length xs" "length xs < SIZE_MOD"
    and "xs ! i \<noteq> xs ! (i + 1)" "xs ! i \<noteq> xs ! (i + 2)" "xs ! (i + 1) \<noteq> xs ! (i + 2)"
  shows "interp_xy (vector_of xs) (vector_of ys) i m = Some (quadratic_at xs ys i m)"
  using assms
  by (simp add: interp_xy_def sz_add_small LagrangePolynomial_Some quadratic_at_def lagrange3_def
      mult.commute)

lemma triple_xy_vector:
  assumes "i + 2 < length xs" "length ys = length xs" "length xs < SIZE_MOD"
    and "xs ! i \<noteq> xs ! (i + 1)" "xs ! i \<noteq> xs ! (i + 2)" "xs ! (i + 1) \<noteq> xs ! (i + 2)"
  shows "triple_xy (vector_of xs) (vector_of ys) i = Some (spec_xy_triple xs ys i)"
  using assms interp_xy_vector [OF assms]
  by (simp add: triple_xy_def sz_add_small spec_xy_triple_def)

lemma loop_xy_closed:
  assumes len: "length ys = length xs" "length xs < SIZE_MOD" "2 \<le> length xs"
    and mono: "strictly_monotonic xs"
  shows "even i \<Longrightarrow> loop_xy (vector_of xs) (vector_of ys) i acc
           = Some (acc + (\<Sum>j\<leftarrow>filter even [i..<length xs - 2]. spec_xy_triple xs ys j))"
proof (induction "length xs - i" arbitrary: i acc rule: less_induct)
  case less
  have bound: "sz_sub (length xs) 2 = length xs - 2"
    using len by (simp add: sz_sub_small)
  show ?case
  proof (cases "i < length xs - 2")
    case True
    then have i2: "i + 2 < length xs" by simp
    have t: "triple_xy (vector_of xs) (vector_of ys) i = Some (spec_xy_triple xs ys i)"
      using i2 len mono by (intro triple_xy_vector strictly_monotonic_distinct) simp_all
    have next_i: "sz_add i 2 = i + 2" using i2 len by (simp add: sz_add_small)
    have IH: "loop_xy (vector_of xs) (vector_of ys) (i + 2) (acc + spec_xy_triple xs ys i)
        = Some (acc + spec_xy_triple xs ys i
            + (\<Sum>j\<leftarrow>filter even [i + 2..<length xs - 2]. spec_xy_triple xs ys j))"
      using less.prems i2 by (intro less.hyps) simp_all
    show ?thesis
      using True IH
      by (subst loop_xy.simps)
        (simp add: bound t next_i filter_even_upt_step [OF less.prems True] add.assoc)
  next
    case False
    then show ?thesis by (subst loop_xy.simps) (simp add: bound)
  qed
qed

lemma tail_xy_vector:
  assumes len: "length ys = length xs" "length xs < SIZE_MOD" "3 \<le> length xs"
    and mono: "strictly_monotonic xs"
  shows "tail_xy (vector_of xs) (vector_of ys) = Some (spec_xy_tail xs ys)"
proof -
  define i where "i = length xs - 3"
  have i: "i + 2 < length xs" "length xs - 2 = Suc i" "length xs - Suc 0 = Suc (Suc i)"
    using len by (simp_all add: i_def)
  have start: "sz_sub (length xs) 3 = i"
    using len by (simp add: sz_sub_small i_def)
  have q: "interp_xy (vector_of xs) (vector_of ys) i m = Some (quadratic_at xs ys i m)" for m
    using i(1) len mono by (intro interp_xy_vector strictly_monotonic_distinct) simp_all
  show ?thesis
    using i(1) len
    by (simp add: tail_xy_def start q sz_add_small spec_xy_tail_def i(2,3) i_def [symmetric]
        Let_def)
qed

lemma SimpsonRule_xy_closed:
  assumes "length ys = length xs" "length xs < SIZE_MOD" "3 \<le> length xs" "strictly_monotonic xs"
  shows "SimpsonRule_xy (vector_of xs) (vector_of ys) = Some (spec_xy_formula xs ys)"
  using assms loop_xy_closed [of ys xs 0 0] tail_xy_vector [of ys xs]
  by (simp add: SimpsonRule_xy_def spec_xy_formula_def triple_starts_def even_iff_mod_2_eq_zero)

lemma loop_y_closed:
  assumes len: "length ys < SIZE_MOD" "2 \<le> length ys"
  shows "even i \<Longrightarrow> loop_y (vector_of ys) i acc
           = Some (acc + (\<Sum>j\<leftarrow>filter even [i..<length ys - 2]. ys ! j + 4 * ys ! (j + 1) + ys ! (j + 2)))"
proof (induction "length ys - i" arbitrary: i acc rule: less_induct)
  case less
  have bound: "sz_sub (length ys) 2 = length ys - 2"
    using len by (simp add: sz_sub_small)
  show ?case
  proof (cases "i < length ys - 2")
    case True
    then have i2: "i + 2 < length ys" by simp
    have next_i: "sz_add i 2 = i + 2" "sz_add i (Suc 0) = i + 1"
      using i2 len by (simp_all add: sz_add_small)
    have IH: "loop_y (vector_of ys) (i + 2) (acc + (ys ! i + 4 * ys ! (i + 1) + ys ! (i + 2)))
        = Some (acc + (ys ! i + 4 * ys ! (i + 1) + ys ! (i + 2))
            + (\<Sum>j\<leftarrow>filter even [i + 2..<length ys - 2]. ys ! j + 4 * ys ! (j + 1) + ys ! (j + 2)))"
      using less.prems i2 by (intro less.hyps) simp_all
    show ?thesis
      using True IH i2
      by (subst loop_y.simps)
        (simp add: bound next_i filter_even_upt_step [OF less.prems True] add.assoc)
  next
    case False
    then show ?thesis by (subst loop_y.simps) (simp add: bound)
  qed
qed

lemma tail_y_vector:
  assumes len: "length ys < SIZE_MOD" "3 \<le> length ys"
  shows "tail_y (vector_of ys) dx =
     (if dx = 0 then None
      else Some (dx / 6 * (ys ! (length ys - 2)
               + 4 * lagrange3 0 (ys ! (length ys - 3)) dx (ys ! (length ys - 2)) (2 * dx)
                       (ys ! (length ys - 1)) (3 * dx / 2)
               + ys ! (length ys - 1))))"
proof -
  define i where "i = length ys - 3"
  have i: "i + 2 < length ys" "length ys - 2 = Suc i" "length ys - Suc 0 = Suc (Suc i)"
    using len by (simp_all add: i_def)
  have start: "sz_sub (length ys) 3 = i"
    using len by (simp add: sz_sub_small i_def)
  show ?thesis
    using i(1) len
    by (simp add: tail_y_def start sz_add_small i(2,3) i_def [symmetric] Let_def
        LagrangePolynomial_def lagrange3_def)
qed

lemma SimpsonRule_y_closed:
  assumes "length ys < SIZE_MOD" "3 \<le> length ys"
  shows "SimpsonRule_y (vector_of ys) dx =
     (if even (length ys) \<and> dx = 0 then None else Some (spec_y_formula ys dx))"
  using assms loop_y_closed [of ys 0 0]
  by (simp add: SimpsonRule_y_def spec_y_formula_def triple_starts_def even_iff_mod_2_eq_zero
      Let_def tail_y_vector [OF assms] algebra_simps)

section \<open>Non-uniform spacing\<close>

text \<open>
  C1. For abscissas \<open>x\<close> and ordinates \<open>y\<close> of the same size, at least 3 (and below the
  range of the index type), with \<open>x\<close> strictly monotonic, the call returns the sum over
  \<open>i = 0, 2, 4, \<dots> < n - 2\<close> of \<open>(x[i+2] - x[i]) / 6 * (y[i] + 4 ym + y[i+2])\<close>, plus,
  exactly when \<open>n\<close> is even and above 2, the term of the last pair
  \<open>(x[n-1] - x[n-2]) / 6 * (y[n-2] + 4 ym' + y[n-1])\<close>. Here \<open>ym\<close> and \<open>ym'\<close> are values of the
  interpolant \<^const>\<open>quadratic_at\<close>, at the midpoint of the triple and at the midpoint of the
  last two points; the interpolant is a polynomial of degree at most 2, it passes through
  the three samples, and every such polynomial through the three samples is equal to it.
\<close>

theorem SimpsonRule_xy_formula:
  assumes "length x = length y" "3 \<le> length x" "length x < 2 ^ 64" "strictly_monotonic x"
  shows "SimpsonRule_xy (vector_of x) (vector_of y) = Some (spec_xy_formula x y)
       \<and> (\<forall>i. i + 2 < length x \<longrightarrow>
            (\<exists>c0 c1 c2. \<forall>t. quadratic_at x y i t = c0 + c1 * t + c2 * t ^ 2)
          \<and> (\<forall>j \<in> {i, i + 1, i + 2}. quadratic_at x y i (x ! j) = y ! j)
          \<and> (\<forall>c0 c1 c2. (\<forall>j \<in> {i, i + 1, i + 2}. c0 + c1 * x ! j + c2 * (x ! j) ^ 2 = y ! j)
                \<longrightarrow> (\<forall>t. quadratic_at x y i t = c0 + c1 * t + c2 * t ^ 2)))"
proof (intro conjI allI impI)
  show "SimpsonRule_xy (vector_of x) (vector_of y) = Some (spec_xy_formula x y)"
    using assms by (intro SimpsonRule_xy_closed) (simp_all add: SIZE_MOD_def)
next
  fix i assume "i + 2 < length x"
  show "\<exists>c0 c1 c2. \<forall>t. quadratic_at x y i t = c0 + c1 * t + c2 * t ^ 2"
    unfolding quadratic_at_def by (rule lagrange3_is_quadratic)
next
  fix i assume i: "i + 2 < length x"
  have d: "x ! i \<noteq> x ! (i + 1)" "x ! i \<noteq> x ! (i + 2)" "x ! (i + 1) \<noteq> x ! (i + 2)"
    using i strictly_monotonic_distinct [OF assms(4), of i "i + 1"]
      strictly_monotonic_distinct [OF assms(4), of i "i + 2"]
      strictly_monotonic_distinct [OF assms(4), of "i + 1" "i + 2"]
    by simp_all
  show "\<forall>j \<in> {i, i + 1, i + 2}. quadratic_at x y i (x ! j) = y ! j"
    using lagrange3_nodes [OF d] by (simp add: quadratic_at_def)
next
  fix i c0 c1 c2 t
  assume i: "i + 2 < length x"
    and q: "\<forall>j \<in> {i, i + 1, i + 2}. c0 + c1 * x ! j + c2 * (x ! j) ^ 2 = y ! j"
  have d: "x ! i \<noteq> x ! (i + 1)" "x ! i \<noteq> x ! (i + 2)" "x ! (i + 1) \<noteq> x ! (i + 2)"
    using i strictly_monotonic_distinct [OF assms(4), of i "i + 1"]
      strictly_monotonic_distinct [OF assms(4), of i "i + 2"]
      strictly_monotonic_distinct [OF assms(4), of "i + 1" "i + 2"]
    by simp_all
  have "y ! i = c0 + c1 * x ! i + c2 * (x ! i) ^ 2"
    "y ! (i + 1) = c0 + c1 * x ! (i + 1) + c2 * (x ! (i + 1)) ^ 2"
    "y ! (i + 2) = c0 + c1 * x ! (i + 2) + c2 * (x ! (i + 2)) ^ 2"
    using q by simp_all
  then show "quadratic_at x y i t = c0 + c1 * t + c2 * t ^ 2"
    unfolding quadratic_at_def by (simp only: lagrange3_unique [OF d])
qed

theorem SimpsonRule_xy_formula_witness:
  "length [0, 1, 3, 4 :: real] = length [0, 1, 9, 16 :: real] \<and> 3 \<le> length [0, 1, 3, 4 :: real]
   \<and> length [0, 1, 3, 4 :: real] < 2 ^ 64 \<and> strictly_monotonic [0, 1, 3, 4]
   \<and> SimpsonRule_xy (vector_of [0, 1, 3, 4]) (vector_of [0, 1, 9, 16]) = Some (64 / 3)
   \<and> quadratic_at [0, 1, 3, 4] [0, 1, 9, 16] 0 (3 / 2) = 9 / 4"
proof -
  have h: "length [0, 1, 3, 4 :: real] = length [0, 1, 9, 16 :: real]"
    "3 \<le> length [0, 1, 3, 4 :: real]"
    "length [0, 1, 3, 4 :: real] < 2 ^ 64" "strictly_monotonic [0, 1, 3, 4]"
    by (simp_all add: strictly_monotonic_def)
  have t: "triple_starts (length [0, 1, 3, 4 :: real]) = [0]"
    by (simp add: triple_starts_def upt_conv_Cons)
  have f: "spec_xy_formula [0, 1, 3, 4] [0, 1, 9, 16] = 64 / 3"
    unfolding spec_xy_formula_def t
    by (simp add: spec_xy_triple_def spec_xy_tail_def quadratic_at_def lagrange3_def)
  have q: "quadratic_at [0, 1, 3, 4] [0, 1, 9, 16] 0 (3 / 2) = 9 / 4"
    by (simp add: quadratic_at_def lagrange3_def)
  show ?thesis using h SimpsonRule_xy_formula [OF h] f q by simp
qed

text \<open>
  C10. When the middle abscissa of a triple is the midpoint of the outer two and the
  three abscissas are distinct, the three Lagrange weights at the midpoint are 0, 1, 0, the
  interpolated ordinate is the middle sample, and the triple adds the classic Simpson term
  \<open>(x[i+2] - x[i]) / 6 * (y[i] + 4 y[i+1] + y[i+2])\<close>.
\<close>

theorem triple_xy_midpoint_collapse:
  assumes x: "get x i = Some x0" "get x (sz_add i 1) = Some x1" "get x (sz_add i 2) = Some x2"
    and y: "get y i = Some y0" "get y (sz_add i 1) = Some y1" "get y (sz_add i 2) = Some y2"
    and mid: "x1 = (x0 + x2) / 2"
    and dist: "distinct [x0, x1, x2]"
  shows "LagrangePolynomial ((x0 + x2) / 2) x1 x2 x0 = Some 0
       \<and> LagrangePolynomial ((x0 + x2) / 2) x0 x2 x1 = Some 1
       \<and> LagrangePolynomial ((x0 + x2) / 2) x0 x1 x2 = Some 0
       \<and> interp_xy x y i ((x0 + x2) / 2) = Some y1
       \<and> triple_xy x y i = Some ((x2 - x0) / 6 * (y0 + 4 * y1 + y2))"
proof -
  have d: "x0 \<noteq> x1" "x0 \<noteq> x2" "x1 \<noteq> x2" using dist by simp_all
  have l0: "LagrangePolynomial ((x0 + x2) / 2) x1 x2 x0 = Some 0"
    using d by (simp add: LagrangePolynomial_def mid [symmetric])
  have l2: "LagrangePolynomial ((x0 + x2) / 2) x0 x1 x2 = Some 0"
    using d by (simp add: LagrangePolynomial_def mid [symmetric])
  have l1: "LagrangePolynomial ((x0 + x2) / 2) x0 x2 x1 = Some 1"
    using d by (simp add: LagrangePolynomial_def mid [symmetric])
  have ym: "interp_xy x y i ((x0 + x2) / 2) = Some y1"
    using x y l0 l1 l2 by (simp add: interp_xy_def)
  have "triple_xy x y i = Some ((x2 - x0) / 6 * (y0 + 4 * y1 + y2))"
    using x y ym by (simp add: triple_xy_def)
  then show ?thesis using l0 l1 l2 ym by simp
qed

theorem triple_xy_midpoint_collapse_witness:
  "get (vector_of [1, 3, 5 :: real]) 0 = Some 1
   \<and> get (vector_of [1, 3, 5 :: real]) (sz_add 0 1) = Some 3
   \<and> get (vector_of [1, 3, 5 :: real]) (sz_add 0 2) = Some 5
   \<and> get (vector_of [2, 7, 4 :: real]) 0 = Some 2
   \<and> get (vector_of [2, 7, 4 :: real]) (sz_add 0 1) = Some 7
   \<and> get (vector_of [2, 7, 4 :: real]) (sz_add 0 2) = Some 4
   \<and> (3 :: real) = (1 + 5) / 2 \<and> distinct [1, 3, 5 :: real]
   \<and> interp_xy (vector_of [1, 3, 5]) (vector_of [2, 7, 4]) 0 3 = Some 7
   \<and> triple_xy (vector_of [1, 3, 5]) (vector_of [2, 7, 4]) 0 = Some (68 / 3)"
proof -
  have x: "get (vector_of [1, 3, 5 :: real]) 0 = Some 1"
    "get (vector_of [1, 3, 5 :: real]) (sz_add 0 1) = Some 3"
    "get (vector_of [1, 3, 5 :: real]) (sz_add 0 2) = Some 5"
    by (simp_all add: get_vector_of sz_defs)
  have y: "get (vector_of [2, 7, 4 :: real]) 0 = Some 2"
    "get (vector_of [2, 7, 4 :: real]) (sz_add 0 1) = Some 7"
    "get (vector_of [2, 7, 4 :: real]) (sz_add 0 2) = Some 4"
    by (simp_all add: get_vector_of sz_defs)
  have m: "(3 :: real) = (1 + 5) / 2" "distinct [1, 3, 5 :: real]"
    by simp_all
  have e: "((1 :: real) + 5) / 2 = 3" "((5 :: real) - 1) / 6 * (2 + 4 * 7 + 4) = 68 / 3"
    by simp_all
  note r = triple_xy_midpoint_collapse [OF x y m, unfolded e]
  show ?thesis
    by (intro conjI x y m)
      (rule r [THEN conjunct2, THEN conjunct2, THEN conjunct2, THEN conjunct1],
        rule r [THEN conjunct2, THEN conjunct2, THEN conjunct2, THEN conjunct2])
qed

text \<open>
  C9. With exactly two samples the non-uniform version returns 0 whatever the containers
  hold, also when every element access is undefined: it reads no element. The uniform
  version has no guard on the size in its tail, reads \<open>y[size - 3]\<close> after the index has
  wrapped around, and has no defined value on two samples.
\<close>

theorem SimpsonRule_xy_two_samples:
  assumes "csize x = 2" "length ys = 2"
  shows "SimpsonRule_xy x y = Some 0 \<and> SimpsonRule_y (vector_of ys) dx = None"
proof
  show "SimpsonRule_xy x y = Some 0"
    using assms(1) by (simp add: SimpsonRule_xy_def loop_xy.simps sz_defs)
  have "get (vector_of ys) (sz_sub 2 3) = None"
    using assms(2) by (simp add: get_vector_of sz_defs)
  then show "SimpsonRule_y (vector_of ys) dx = None"
    using assms(2) by (simp add: SimpsonRule_y_def loop_y.simps tail_y_def sz_sub_small SIZE_MOD_def)
qed

theorem SimpsonRule_xy_two_samples_witness:
  "csize \<lparr>csize = 2, get = (\<lambda>i. None :: real option)\<rparr> = 2 \<and> length [5, 7 :: real] = 2
   \<and> SimpsonRule_xy \<lparr>csize = 2, get = (\<lambda>i. None)\<rparr> \<lparr>csize = 2, get = (\<lambda>i. None)\<rparr> = Some 0
   \<and> SimpsonRule_y (vector_of [5, 7]) 1 = None"
proof -
  have h: "csize \<lparr>csize = 2, get = (\<lambda>i. None :: real option)\<rparr> = 2" "length [5, 7 :: real] = 2"
    by simp_all
  show ?thesis
    using h SimpsonRule_xy_two_samples [OF h, of "\<lparr>csize = 2, get = (\<lambda>i. None)\<rparr>" 1] by simp
qed

section \<open>Uniform spacing\<close>

text \<open>
  C2. For at least 3 samples (and fewer than the range of the index type) and a step
  \<open>dx\<close>, the call returns \<open>dx / 3\<close> times the sum over \<open>i = 0, 2, 4, \<dots> < n - 2\<close> of
  \<open>y[i] + 4 y[i+1] + y[i+2]\<close>, plus, exactly when \<open>n\<close> is even, the separate term
  \<open>dx / 6 * (y[n-2] + 4 ym + y[n-1])\<close> with \<open>ym\<close> the interpolant through the last three samples
  at the offsets \<open>0\<close>, \<open>dx\<close>, \<open>2 dx\<close>, evaluated at \<open>3 dx / 2\<close>. For an even \<open>n\<close> and \<open>dx = 0\<close>
  the three offsets coincide, the interpolant does not exist and the call divides by zero.
\<close>

theorem SimpsonRule_y_formula:
  assumes "3 \<le> length y" "length y < 2 ^ 64"
  shows "SimpsonRule_y (vector_of y) dx =
     (if even (length y) \<and> dx = 0 then None else Some (spec_y_formula y dx))"
  using assms by (intro SimpsonRule_y_closed) (simp_all add: SIZE_MOD_def)

theorem SimpsonRule_y_formula_witness:
  "3 \<le> length [0, 1, 4, 9, 16 :: real] \<and> length [0, 1, 4, 9, 16 :: real] < 2 ^ 64
   \<and> SimpsonRule_y (vector_of [0, 1, 4, 9, 16]) (1 / 2) = Some (32 / 3)"
proof -
  have h: "3 \<le> length [0, 1, 4, 9, 16 :: real]" "length [0, 1, 4, 9, 16 :: real] < 2 ^ 64"
    by simp_all
  have t: "triple_starts (length [0, 1, 4, 9, 16 :: real]) = [0, 2]"
    by (simp add: triple_starts_def upt_conv_Cons)
  have f: "spec_y_formula [0, 1, 4, 9, 16] (1 / 2) = 32 / 3"
    unfolding spec_y_formula_def Let_def t by simp
  show ?thesis using h SimpsonRule_y_formula [OF h, of "1 / 2"] unfolding f by simp
qed

text \<open>
  C8. The uniform version on the four samples \<open>0, 1, 4, 9\<close> with step 1 takes the tail
  path and returns exactly 9, the integral of the square from 0 to 3.
\<close>

theorem SimpsonRule_y_squares_four:
  "SimpsonRule_y (vector_of [0, 1, 4, 9]) 1 = Some 9"
  by (simp add: SimpsonRule_y_def tail_y_def loop_y.simps vector_of_def sz_defs
      LagrangePolynomial_def)

section \<open>Evenly spaced abscissas\<close>

lemma uniform_strictly_monotonic:
  assumes "dx \<noteq> 0"
  shows "strictly_monotonic (map (\<lambda>k. x0 + real k * dx) [0..<n])"
proof (cases "0 < dx")
  case True
  have "sorted_wrt (\<lambda>i j. x0 + real i * dx < x0 + real j * dx) [0..<n]"
    by (rule sorted_wrt_mono_rel [OF _ sorted_wrt_upt]) (use True in simp)
  then show ?thesis by (simp add: strictly_monotonic_def sorted_wrt_map)
next
  case False
  then have neg: "dx < 0" using assms by simp
  have "sorted_wrt (\<lambda>i j. x0 + real i * dx > x0 + real j * dx) [0..<n]"
    by (rule sorted_wrt_mono_rel [OF _ sorted_wrt_upt]) (use neg in simp)
  then show ?thesis by (simp add: strictly_monotonic_def sorted_wrt_map)
qed

lemma lagrange3_uniform_mid:
  assumes "dx \<noteq> 0"
  shows "lagrange3 a y0 (a + dx) y1 (a + 2 * dx) y2 ((a + (a + 2 * dx)) / 2) = y1"
proof -
  have m: "(a + (a + 2 * dx)) / 2 = a + dx" by simp
  show ?thesis unfolding m
    by (rule lagrange3_nodes(2)) (use assms in simp_all)
qed

lemma lagrange3_uniform_tail:
  "lagrange3 a y0 (a + dx) y1 (a + 2 * dx) y2 ((a + dx + (a + 2 * dx)) / 2)
     = lagrange3 0 y0 dx y1 (2 * dx) y2 (3 * dx / 2)"
proof -
  have m: "(a + dx + (a + 2 * dx)) / 2 = a + 3 * dx / 2" by (simp add: field_simps)
  show ?thesis unfolding m lagrange3_def by simp
qed

lemma uniform_formula_eq:
  assumes n: "3 \<le> length y" and dx: "dx \<noteq> 0"
  shows "spec_xy_formula (map (\<lambda>k. x0 + real k * dx) [0..<length y]) y = spec_y_formula y dx"
proof -
  define n where "n = length y"
  define x where "x = map (\<lambda>k. x0 + real k * dx) [0..<n]"
  have xn: "x ! i = x0 + real i * dx" if "i < n" for i
    using that by (simp add: x_def)
  have lx: "length x = n" by (simp add: x_def)
  have triple: "spec_xy_triple x y i = dx / 3 * (y ! i + 4 * y ! (i + 1) + y ! (i + 2))"
    if "i + 2 < n" for i
  proof -
    have p: "x ! i = x0 + real i * dx" "x ! (i + 1) = x0 + real i * dx + dx"
      "x ! (i + 2) = x0 + real i * dx + 2 * dx"
      using that by (simp_all add: xn algebra_simps)
    show ?thesis
      unfolding spec_xy_triple_def quadratic_at_def p
      by (simp only: lagrange3_uniform_mid [OF dx]) (simp add: field_simps)
  qed
  have "map (spec_xy_triple x y) (triple_starts n)
      = map (\<lambda>i. dx / 3 * (y ! i + 4 * y ! (i + 1) + y ! (i + 2))) (triple_starts n)"
  proof (rule map_cong [OF refl])
    fix i assume "i \<in> set (triple_starts n)"
    then have "i + 2 < n" using n by (auto simp: triple_starts_def n_def)
    then show "spec_xy_triple x y i = dx / 3 * (y ! i + 4 * y ! (i + 1) + y ! (i + 2))"
      by (rule triple)
  qed
  then have "(\<Sum>i\<leftarrow>triple_starts n. spec_xy_triple x y i)
      = (\<Sum>i\<leftarrow>triple_starts n. dx / 3 * (y ! i + 4 * y ! (i + 1) + y ! (i + 2)))"
    by (simp only:)
  also have "\<dots> = dx / 3 * (\<Sum>i\<leftarrow>triple_starts n. y ! i + 4 * y ! (i + 1) + y ! (i + 2))"
    by (rule sum_list_const_mult)
  finally have main: "(\<Sum>i\<leftarrow>triple_starts n. spec_xy_triple x y i)
      = dx / 3 * (\<Sum>i\<leftarrow>triple_starts n. y ! i + 4 * y ! (i + 1) + y ! (i + 2))" .
  have tail: "spec_xy_tail x y
      = dx / 6 * (y ! (n - 2)
               + 4 * lagrange3 0 (y ! (n - 3)) dx (y ! (n - 2)) (2 * dx) (y ! (n - 1)) (3 * dx / 2)
               + y ! (n - 1))"
  proof -
    define i where "i = n - 3"
    have i: "n - 2 = i + 1" "n - 1 = i + 2" "n - 3 = i" "i + 2 < n"
      using n by (simp_all add: i_def n_def)
    have p: "x ! i = x0 + real i * dx" "x ! (i + 1) = x0 + real i * dx + dx"
      "x ! (i + 2) = x0 + real i * dx + 2 * dx"
      using i(4) by (simp_all add: xn algebra_simps)
    show ?thesis
      unfolding spec_xy_tail_def Let_def lx i(1,2,3) quadratic_at_def p
      by (simp only: lagrange3_uniform_tail) (simp add: field_simps)
  qed
  show ?thesis
    using n unfolding spec_xy_formula_def spec_y_formula_def Let_def
      x_def [symmetric] n_def [symmetric] lx main tail
    by (simp add: n_def)
qed

text \<open>
  C5. For at least 3 samples and a nonzero step, the non-uniform version on the evenly
  spaced abscissas \<open>x[i] = x0 + i dx\<close> and the uniform version with the step \<open>dx\<close> both return,
  and return the same value, on the tail path too.
\<close>

theorem SimpsonRule_xy_uniform_agrees:
  assumes "3 \<le> length y" "length y < 2 ^ 64" "dx \<noteq> 0"
  shows "\<exists>v. SimpsonRule_xy (vector_of (map (\<lambda>i. x0 + real i * dx) [0..<length y])) (vector_of y) = Some v
           \<and> SimpsonRule_y (vector_of y) dx = Some v"
proof -
  let ?x = "map (\<lambda>i. x0 + real i * dx) [0..<length y]"
  have "SimpsonRule_xy (vector_of ?x) (vector_of y) = Some (spec_xy_formula ?x y)"
    using assms by (intro SimpsonRule_xy_closed uniform_strictly_monotonic) (simp_all add: SIZE_MOD_def)
  moreover have "SimpsonRule_y (vector_of y) dx = Some (spec_y_formula y dx)"
    using assms by (simp add: SimpsonRule_y_closed SIZE_MOD_def)
  ultimately show ?thesis using uniform_formula_eq [OF assms(1,3)] by simp
qed

theorem SimpsonRule_xy_uniform_agrees_witness:
  "3 \<le> length [0, 1, 4, 9 :: real] \<and> length [0, 1, 4, 9 :: real] < 2 ^ 64 \<and> (1 / 2 :: real) \<noteq> 0
   \<and> (\<exists>v. SimpsonRule_xy (vector_of [1, 3 / 2, 2, 5 / 2]) (vector_of [0, 1, 4, 9]) = Some v
          \<and> SimpsonRule_y (vector_of [0, 1, 4, 9]) (1 / 2) = Some v)"
proof -
  have h: "3 \<le> length [0, 1, 4, 9 :: real]" "length [0, 1, 4, 9 :: real] < 2 ^ 64"
    "(1 / 2 :: real) \<noteq> 0"
    by simp_all
  have x: "map (\<lambda>i. 1 + real i * (1 / 2)) [0..<length [0, 1, 4, 9 :: real]] = [1, 3 / 2, 2, 5 / 2]"
    by (simp add: upt_conv_Cons)
  show ?thesis
    using h SimpsonRule_xy_uniform_agrees [OF h, of 1] unfolding x by simp
qed

section \<open>Callable between two points\<close>

text \<open>
  C3. For \<open>N \<ge> 1\<close> the call returns \<open>dx / 6\<close> times the sum over \<open>i = 0, \<dots>, N - 1\<close> of
  \<open>f(x\<^sub>i) + 4 f(x\<^sub>i + dx / 2) + f(x\<^sub>i + dx)\<close>, where \<open>dx = (b - a) / N\<close> and \<open>x\<^sub>i = a + i dx\<close>.
\<close>

theorem SimpsonRule_f_formula:
  assumes "1 \<le> N"
  shows "SimpsonRule_f f a b N =
     (let dx = (b - a) / real N in
      Some (dx / 6 * (\<Sum>i<N. f (a + real i * dx) + 4 * f (a + real i * dx + dx / 2) + f (a + real i * dx + dx))))"
  using assms by (simp add: SimpsonRule_f_def loop_f_closed Let_def)

theorem SimpsonRule_f_formula_witness:
  "1 \<le> (1 :: nat) \<and> SimpsonRule_f (\<lambda>x. x * x) 0 1 1 = Some (1 / 3)"
  using SimpsonRule_f_formula [of 1 "\<lambda>x. x * x" 0 1] by simp

text \<open>
  C6. For \<open>NN \<ge> 1\<close> the entry point with the subdivision count fixed in the type returns
  the value of the entry point with the count as an argument, called with \<open>N = NN\<close>.
\<close>

theorem SimpsonRule_f_NN_agrees:
  assumes "1 \<le> NN"
  shows "\<exists>v. SimpsonRule_f_NN NN f a b = Some v \<and> SimpsonRule_f f a b NN = Some v"
  using assms by (simp add: SimpsonRule_f_NN_def SimpsonRule_f_def loop_f_NN_eq Let_def)

theorem SimpsonRule_f_NN_agrees_witness:
  "1 \<le> (2 :: nat)
   \<and> (\<exists>v. SimpsonRule_f_NN 2 (\<lambda>x. x * x) 0 1 = Some v \<and> SimpsonRule_f (\<lambda>x. x * x) 0 1 2 = Some v)"
  using SimpsonRule_f_NN_agrees [of 2 "\<lambda>x. x * x" 0 1] by simp

lemma simpson_sum_reverse:
  assumes "1 \<le> N"
  shows "simpson_sum f b (- ((b - a) / real N)) N = simpson_sum f a ((b - a) / real N) N"
proof -
  define dx where "dx = (b - a) / real N"
  have N: "real N * dx = b - a" using assms by (simp add: dx_def)
  let ?g = "\<lambda>i. f (a + real i * dx) + 4 * f (a + real i * dx + dx / 2) + f (a + real i * dx + dx)"
  have "simpson_sum f b (- dx) N = (\<Sum>i<N. ?g (N - Suc i))"
    unfolding simpson_sum_def
  proof (rule sum.cong)
    fix i assume "i \<in> {..<N}"
    then have i: "real (N - Suc i) = real N - 1 - real i" by (simp add: of_nat_diff)
    have b: "b = a + real N * dx" using N by simp
    have e1: "f (b + real i * - dx + - dx) = f (a + real (N - Suc i) * dx)"
      by (rule arg_cong [where f = f]) (simp add: i b algebra_simps)
    have e2: "f (b + real i * - dx + - dx / 2) = f (a + real (N - Suc i) * dx + dx / 2)"
      by (rule arg_cong [where f = f]) (simp add: i b algebra_simps)
    have e3: "f (b + real i * - dx) = f (a + real (N - Suc i) * dx + dx)"
      by (rule arg_cong [where f = f]) (simp add: i b algebra_simps)
    show "f (b + real i * - dx) + 4 * f (b + real i * - dx + - dx / 2) + f (b + real i * - dx + - dx) = ?g (N - Suc i)"
      unfolding e1 e2 e3 by simp
  qed simp
  also have "\<dots> = (\<Sum>i<N. ?g i)" by (rule sum.nat_diff_reindex)
  finally show ?thesis by (simp add: simpson_sum_def dx_def)
qed

text \<open>
  C7. For \<open>N \<ge> 1\<close> the call over \<open>[a, b]\<close> returns the negation of the call over \<open>[b, a]\<close>
  with the same callable and the same \<open>N\<close>.
\<close>

theorem SimpsonRule_f_reversal:
  assumes "1 \<le> N"
  shows "\<exists>v. SimpsonRule_f f a b N = Some v \<and> SimpsonRule_f f b a N = Some (- v)"
proof -
  have r: "(a - b) / real N = - ((b - a) / real N)"
    using minus_divide_left [of "b - a" "real N"] by simp
  show ?thesis
    using assms simpson_sum_reverse [OF assms, of f b a]
    by (simp add: SimpsonRule_f_closed r)
qed

theorem SimpsonRule_f_reversal_witness:
  "1 \<le> (3 :: nat)
   \<and> (\<exists>v. SimpsonRule_f (\<lambda>x. x * x * x * x) 0 1 3 = Some v
          \<and> SimpsonRule_f (\<lambda>x. x * x * x * x) 1 0 3 = Some (- v))"
  using SimpsonRule_f_reversal [of 3 "\<lambda>x. x * x * x * x" 0 1] by simp

lemma cubic_primitive_deriv:
  "(cubic_primitive c0 c1 c2 c3 has_real_derivative cubic c0 c1 c2 c3 x) (at x)"
  unfolding cubic_primitive_def cubic_def
  by (auto intro!: derivative_eq_intros simp: power2_eq_square power3_eq_cube)

lemma simpson_step_cubic:
  "dx / 6 * (cubic c0 c1 c2 c3 x + 4 * cubic c0 c1 c2 c3 (x + dx / 2) + cubic c0 c1 c2 c3 (x + dx))
     = cubic_primitive c0 c1 c2 c3 (x + dx) - cubic_primitive c0 c1 c2 c3 x"
  unfolding cubic_primitive_def cubic_def
  by (simp add: power2_eq_square power3_eq_cube power4_eq_xxxx field_simps)

lemma simpson_sum_cubic:
  "dx / 6 * simpson_sum (cubic c0 c1 c2 c3) a dx N
     = cubic_primitive c0 c1 c2 c3 (a + real N * dx) - cubic_primitive c0 c1 c2 c3 a"
proof -
  let ?F = "cubic_primitive c0 c1 c2 c3"
  have "dx / 6 * simpson_sum (cubic c0 c1 c2 c3) a dx N
      = (\<Sum>i<N. ?F (a + real i * dx + dx) - ?F (a + real i * dx))"
    unfolding simpson_sum_def sum_distrib_left
    by (rule sum.cong [OF refl], rule simpson_step_cubic)
  also have "\<dots> = (\<Sum>i<N. ?F (a + real (Suc i) * dx) - ?F (a + real i * dx))"
    by (rule sum.cong) (simp_all add: algebra_simps)
  also have "\<dots> = ?F (a + real N * dx) - ?F (a + real 0 * dx)"
    by (rule sum_lessThan_telescope)
  finally show ?thesis by simp
qed

text \<open>
  C4. For a polynomial of degree at most 3, any bounds and \<open>N \<ge> 1\<close>, both entry points
  return exactly the integral over \<open>[a, b]\<close>: the difference of a primitive of the polynomial
  at \<open>b\<close> and at \<open>a\<close>.
\<close>

theorem SimpsonRule_f_cubic_exact:
  assumes "1 \<le> N"
  shows "SimpsonRule_f (cubic c0 c1 c2 c3) a b N
           = Some (cubic_primitive c0 c1 c2 c3 b - cubic_primitive c0 c1 c2 c3 a)
       \<and> SimpsonRule_f_NN N (cubic c0 c1 c2 c3) a b
           = Some (cubic_primitive c0 c1 c2 c3 b - cubic_primitive c0 c1 c2 c3 a)
       \<and> (\<forall>x. (cubic_primitive c0 c1 c2 c3 has_real_derivative cubic c0 c1 c2 c3 x) (at x))"
proof -
  have e: "a + real N * ((b - a) / real N) = b" using assms by simp
  have A: "SimpsonRule_f (cubic c0 c1 c2 c3) a b N
           = Some (cubic_primitive c0 c1 c2 c3 b - cubic_primitive c0 c1 c2 c3 a)"
    using assms simpson_sum_cubic [of "(b - a) / real N" c0 c1 c2 c3 a N]
    by (simp add: SimpsonRule_f_closed e)
  have B: "SimpsonRule_f_NN N (cubic c0 c1 c2 c3) a b = SimpsonRule_f (cubic c0 c1 c2 c3) a b N"
    by (simp add: SimpsonRule_f_NN_def SimpsonRule_f_def loop_f_NN_eq)
  show ?thesis using A B cubic_primitive_deriv by simp
qed

theorem SimpsonRule_f_cubic_exact_witness:
  "1 \<le> (2 :: nat) \<and> SimpsonRule_f (cubic 0 0 1 0) 0 3 2 = Some 9
   \<and> SimpsonRule_f_NN 2 (cubic 0 0 1 0) 0 3 = Some 9"
  using SimpsonRule_f_cubic_exact [of 2 0 0 1 0 0 3] by (simp add: cubic_primitive_def)

end
